theory Spec2Isabelle
  imports Main
begin

section \<open>JavaScript values used by the embedded code\<close>

text \<open>
  An optional string field (\<^verbatim>\<open>string | undefined\<close>) is a \<open>string option\<close>.
  In a condition JavaScript takes it as true when it is present and not the empty string.
\<close>

fun truthy :: "string option \<Rightarrow> bool" where
  "truthy None = False"
| "truthy (Some s) = (s \<noteq> [])"

text \<open>\<^verbatim>\<open>x || d\<close> on an optional string.\<close>

fun or_else :: "string option \<Rightarrow> string \<Rightarrow> string" where
  "or_else None d = d"
| "or_else (Some s) d = (if s \<noteq> [] then s else d)"

section \<open>Stream processor: libs/utils/src/stream-processor.ts\<close>

text \<open>
  \<^verbatim>\<open>ContentBlock\<close> and \<^verbatim>\<open>ProviderMessage\<close> are read through the fields the code
  touches: \<^verbatim>\<open>block.type\<close>, \<^verbatim>\<open>block.text\<close>, \<^verbatim>\<open>block.name\<close>, \<^verbatim>\<open>block.input\<close>,
  \<^verbatim>\<open>block.thinking\<close>, and \<^verbatim>\<open>msg.type\<close>, \<^verbatim>\<open>msg.subtype\<close>, \<^verbatim>\<open>msg.message?.content\<close>,
  \<^verbatim>\<open>msg.result\<close>, \<^verbatim>\<open>msg.error\<close>. The type tags are the strings the code compares them
  with; \<open>'i\<close> is the type of a tool input (\<^verbatim>\<open>unknown\<close> in the source).
\<close>

record 'i ContentBlock =
  b_type :: string
  b_text :: "string option"
  b_name :: "string option"
  b_input :: 'i
  b_thinking :: "string option"

record 'i ProviderMessage =
  m_type :: string
  m_subtype :: "string option"
  m_content :: "'i ContentBlock list option"
  m_result :: "string option"
  m_error :: "string option"

text \<open>
  \<^verbatim>\<open>StreamHandlers\<close>: every callback is optional, so a handler set says which callbacks
  are supplied. A callback is the caller's code; what the processor does with it is to
  invoke it with an argument and wait for it, and the model records each invocation, in
  order. The callbacks are taken to return, and the stream to be the finite sequence of
  the messages it yields: the only error thrown is the one of \<^verbatim>\<open>processStream\<close> itself.
\<close>

record StreamHandlers =
  onText :: bool
  onToolUse :: bool
  onError :: bool
  onComplete :: bool
  onThinking :: bool

datatype 'i call =
    OnText string
  | OnToolUse string 'i
  | OnError string
  | OnComplete string
  | OnThinking string

record StreamResult =
  r_text :: string
  r_success :: bool
  r_error :: "string option"
  r_result :: "string option"

text \<open>The local variables of \<^verbatim>\<open>processStream\<close>, with the invocations made so far.\<close>

record 'i frame =
  accumulatedText :: string
  success :: bool
  errorMessage :: "string option"
  resultMessage :: "string option"
  calls :: "'i call list"

definition initial_frame :: "'i frame" where
  "initial_frame =
     \<lparr>accumulatedText = [], success = True, errorMessage = None, resultMessage = None,
      calls = []\<rparr>"

text \<open>
  \<^verbatim>\<open>processContentBlock(block, handlers, appendText)\<close>, where \<^verbatim>\<open>appendText\<close> is the
  closure \<^verbatim>\<open>accumulatedText += text\<close>. A \<^verbatim>\<open>switch\<close> with no default: any other tag does
  nothing.
\<close>

definition processContentBlock ::
  "'i ContentBlock \<Rightarrow> StreamHandlers \<Rightarrow> 'i frame \<Rightarrow> 'i frame" where
  "processContentBlock block handlers f =
     (if b_type block = ''text'' then
        (case b_text block of
           None \<Rightarrow> f
         | Some t \<Rightarrow>
             if t \<noteq> [] then
               (let f1 = f\<lparr>accumulatedText := accumulatedText f @ t\<rparr>
                in if onText handlers then f1\<lparr>calls := calls f1 @ [OnText t]\<rparr> else f1)
             else f)
      else if b_type block = ''tool_use'' then
        (case b_name block of
           None \<Rightarrow> f
         | Some n \<Rightarrow>
             if n \<noteq> [] \<and> onToolUse handlers
             then f\<lparr>calls := calls f @ [OnToolUse n (b_input block)]\<rparr> else f)
      else if b_type block = ''thinking'' then
        (case b_thinking block of
           None \<Rightarrow> f
         | Some t \<Rightarrow>
             if t \<noteq> [] \<and> onThinking handlers
             then f\<lparr>calls := calls f @ [OnThinking t]\<rparr> else f)
      else f)"

text \<open>
  One turn of the \<^verbatim>\<open>for await\<close> loop of \<^verbatim>\<open>processStream\<close>: the body either
  completes, and the loop goes on with the frame, or throws an error.
\<close>

datatype 'i completion = Normal "'i frame" | Throw "'i frame" string

definition loop_body ::
  "'i ProviderMessage \<Rightarrow> StreamHandlers \<Rightarrow> 'i frame \<Rightarrow> 'i completion" where
  "loop_body msg handlers f =
     (if m_type msg = ''assistant'' \<and> m_content msg \<noteq> None then
        (case m_content msg of
           None \<Rightarrow> Normal f
         | Some content \<Rightarrow>
             Normal (fold (\<lambda>block. processContentBlock block handlers) content f))
      else if m_type msg = ''error'' then
        (let em = or_else (m_error msg) ''Unknown error'';
             f1 = f\<lparr>success := False, errorMessage := Some em\<rparr>;
             f2 = (if onError handlers then f1\<lparr>calls := calls f1 @ [OnError em]\<rparr> else f1)
         in Throw f2 em)
      else if m_type msg = ''result'' \<and> m_subtype msg = Some ''success'' then
        (let rm = or_else (m_result msg) [];
             f1 = f\<lparr>resultMessage := Some rm\<rparr>;
             f2 = (if onComplete handlers then f1\<lparr>calls := calls f1 @ [OnComplete rm]\<rparr> else f1)
         in Normal f2)
      else Normal f)"

text \<open>
  The loop over the messages the stream yields. It ends with the frame, the message of
  the error thrown in the body (if any) and the messages that were not consumed.
\<close>

fun for_await ::
  "'i ProviderMessage list \<Rightarrow> StreamHandlers \<Rightarrow> 'i frame \<Rightarrow>
     'i frame \<times> string option \<times> 'i ProviderMessage list" where
  "for_await [] handlers f = (f, None, [])"
| "for_await (msg # rest) handlers f =
     (case loop_body msg handlers f of
        Normal f' \<Rightarrow> for_await rest handlers f'
      | Throw f' e \<Rightarrow> (f', Some e, rest))"

text \<open>The \<^verbatim>\<open>catch\<close> block, which records the failure and throws the error again.\<close>

definition catch_block :: "'i frame \<Rightarrow> string \<Rightarrow> 'i frame" where
  "catch_block f e =
     (if \<not> truthy (errorMessage f) then f\<lparr>success := False, errorMessage := Some e\<rparr> else f)"

text \<open>The whole \<^verbatim>\<open>try ... catch\<close> statement.\<close>

definition try_catch ::
  "'i ProviderMessage list \<Rightarrow> StreamHandlers \<Rightarrow>
     'i frame \<times> string option \<times> 'i ProviderMessage list" where
  "try_catch stream handlers =
     (case for_await stream handlers initial_frame of
        (f, None, rest) \<Rightarrow> (f, None, rest)
      | (f, Some e, rest) \<Rightarrow> (catch_block f e, Some e, rest))"

text \<open>
  \<^verbatim>\<open>processStream\<close>: the invocations made, and either the message of the error it throws
  (\<open>Inl\<close>) or the value it returns (\<open>Inr\<close>).
\<close>

definition processStream ::
  "'i ProviderMessage list \<Rightarrow> StreamHandlers \<Rightarrow> 'i call list \<times> (string + StreamResult)" where
  "processStream stream handlers =
     (case try_catch stream handlers of
        (f, Some e, rest) \<Rightarrow> (calls f, Inl e)
      | (f, None, rest) \<Rightarrow>
          (calls f,
           Inr \<lparr>r_text = accumulatedText f, r_success = success f,
                r_error = errorMessage f, r_result = resultMessage f\<rparr>))"

text \<open>The handler set \<^verbatim>\<open>{}\<close>.\<close>

definition no_handlers :: StreamHandlers where
  "no_handlers =
     \<lparr>onText = False, onToolUse = False, onError = False, onComplete = False,
      onThinking = False\<rparr>"


text \<open>Messages as the specification writes them.\<close>

definition text_block :: "string \<Rightarrow> unit ContentBlock" where
  "text_block t =
     \<lparr>b_type = ''text'', b_text = Some t, b_name = None, b_input = (), b_thinking = None\<rparr>"

definition assistant :: "unit ContentBlock list \<Rightarrow> unit ProviderMessage" where
  "assistant content =
     \<lparr>m_type = ''assistant'', m_subtype = None, m_content = Some content, m_result = None,
      m_error = None\<rparr>"

definition assistant_text :: "string \<Rightarrow> unit ProviderMessage" where
  "assistant_text t = assistant [text_block t]"

definition error_message :: "string \<Rightarrow> unit ProviderMessage" where
  "error_message e =
     \<lparr>m_type = ''error'', m_subtype = None, m_content = None, m_result = None,
      m_error = Some e\<rparr>"

definition result_message :: "string \<Rightarrow> string \<Rightarrow> unit ProviderMessage" where
  "result_message sub r =
     \<lparr>m_type = ''result'', m_subtype = Some sub, m_content = None, m_result = Some r,
      m_error = None\<rparr>"

definition all_handlers :: StreamHandlers where
  "all_handlers =
     \<lparr>onText = True, onToolUse = True, onError = True, onComplete = True,
      onThinking = True\<rparr>"

text \<open>
  The text content blocks of the sequence, which the assistant messages carry, in order,
  and the text each holds (empty when the block has none).
\<close>

definition is_text_block :: "'i ContentBlock \<Rightarrow> bool" where
  "is_text_block b = (b_type b = ''text'')"

definition block_text :: "'i ContentBlock \<Rightarrow> string" where
  "block_text b = or_else (b_text b) []"

definition message_text_blocks :: "'i ProviderMessage \<Rightarrow> 'i ContentBlock list" where
  "message_text_blocks m =
     (case m_content m of
        None \<Rightarrow> []
      | Some content \<Rightarrow> if m_type m = ''assistant'' then filter is_text_block content else [])"

definition text_content_blocks :: "'i ProviderMessage list \<Rightarrow> 'i ContentBlock list" where
  "text_content_blocks stream = concat (map message_text_blocks stream)"

text \<open>What the stream emitted as text: the texts of its text blocks that are not empty.\<close>

definition emitted_texts :: "'i ProviderMessage list \<Rightarrow> string list" where
  "emitted_texts stream =
     filter (\<lambda>t. t \<noteq> []) (map block_text (text_content_blocks stream))"

fun onText_calls :: "'i call list \<Rightarrow> string list" where
  "onText_calls [] = []"
| "onText_calls (OnText t # cs) = t # onText_calls cs"
| "onText_calls (c # cs) = onText_calls cs"

text \<open>The texts one content array emits.\<close>

definition emits :: "'i ContentBlock list \<Rightarrow> string list" where
  "emits bs = filter (\<lambda>t. t \<noteq> []) (map block_text (filter is_text_block bs))"

section \<open>Plan approval service: apps/server/src/services/auto-mode/plan-approval-service.ts\<close>

record ApprovalResult =
  approved :: bool
  editedPlan :: "string option"
  feedback :: "string option"

text \<open>
  A promise is pending until it is settled, and settling a settled promise does nothing.
  The promises \<^verbatim>\<open>waitForApproval\<close> has created are kept in the order of their creation.
\<close>

datatype promise = Pending | Fulfilled ApprovalResult | Rejected string

definition settle :: "nat \<Rightarrow> promise \<Rightarrow> promise list \<Rightarrow> promise list" where
  "settle p outcome ps = (if p < length ps \<and> ps ! p = Pending then ps[p := outcome] else ps)"

text \<open>
  \<^verbatim>\<open>PendingApproval\<close>: its \<^verbatim>\<open>resolve\<close> and \<^verbatim>\<open>reject\<close> fields are the two settling functions
  of one promise, which \<open>settles\<close> names.
\<close>

record PendingApproval =
  settles :: nat
  pa_featureId :: string
  pa_projectPath :: string

record PlanApprovalService =
  pendingApprovals :: "string \<rightharpoonup> PendingApproval"
  promises :: "promise list"

definition new_service :: PlanApprovalService where
  "new_service = \<lparr>pendingApprovals = Map.empty, promises = []\<rparr>"

text \<open>\<^verbatim>\<open>waitForApproval\<close> returns the promise it creates.\<close>

definition waitForApproval ::
  "string \<Rightarrow> string \<Rightarrow> PlanApprovalService \<Rightarrow> nat \<times> PlanApprovalService" where
  "waitForApproval featureId projectPath s =
     (let p = length (promises s)
      in (p,
          \<lparr>pendingApprovals = (pendingApprovals s)(featureId \<mapsto>
             \<lparr>settles = p, pa_featureId = featureId, pa_projectPath = projectPath\<rparr>),
           promises = promises s @ [Pending]\<rparr>))"

record ResolveResult =
  rr_success :: bool
  rr_error :: "string option"
  rr_projectPath :: "string option"

definition resolve ::
  "string \<Rightarrow> bool \<Rightarrow> string option \<Rightarrow> string option \<Rightarrow> PlanApprovalService \<Rightarrow>
     ResolveResult \<times> PlanApprovalService" where
  "resolve featureId appr edited fb s =
     (case pendingApprovals s featureId of
        None \<Rightarrow>
          (\<lparr>rr_success = False,
            rr_error = Some (''No pending approval for feature '' @ featureId),
            rr_projectPath = None\<rparr>, s)
      | Some pending \<Rightarrow>
          (\<lparr>rr_success = True, rr_error = None, rr_projectPath = Some (pa_projectPath pending)\<rparr>,
           \<lparr>pendingApprovals = (pendingApprovals s)(featureId := None),
            promises =
              settle (settles pending)
                (Fulfilled \<lparr>approved = appr, editedPlan = edited, feedback = fb\<rparr>)
                (promises s)\<rparr>))"

definition cancel :: "string \<Rightarrow> PlanApprovalService \<Rightarrow> PlanApprovalService" where
  "cancel featureId s =
     (case pendingApprovals s featureId of
        Some pending \<Rightarrow>
          \<lparr>pendingApprovals = (pendingApprovals s)(featureId := None),
           promises =
             settle (settles pending) (Rejected ''Plan approval cancelled - feature was stopped'')
               (promises s)\<rparr>
      | None \<Rightarrow> s)"

definition hasPending :: "string \<Rightarrow> PlanApprovalService \<Rightarrow> bool" where
  "hasPending featureId s = (pendingApprovals s featureId \<noteq> None)"

definition getProjectPath :: "string \<Rightarrow> PlanApprovalService \<Rightarrow> string option" where
  "getProjectPath featureId s = map_option pa_projectPath (pendingApprovals s featureId)"

text \<open>The calls a service receives, and the state they leave.\<close>

datatype request =
    WaitForApproval string string
  | Resolve string bool "string option" "string option"
  | Cancel string

fun perform :: "request \<Rightarrow> PlanApprovalService \<Rightarrow> PlanApprovalService" where
  "perform (WaitForApproval featureId projectPath) s = snd (waitForApproval featureId projectPath s)"
| "perform (Resolve featureId appr edited fb) s = snd (resolve featureId appr edited fb s)"
| "perform (Cancel featureId) s = cancel featureId s"

definition run :: "request list \<Rightarrow> PlanApprovalService \<Rightarrow> PlanApprovalService" where
  "run reqs s = fold perform reqs s"

text \<open>
  Every entry of the map holds a promise that exists and is pending, and no two entries
  hold the same promise.
\<close>

definition entries_pending :: "PlanApprovalService \<Rightarrow> bool" where
  "entries_pending s =
     ((\<forall>k pa. pendingApprovals s k = Some pa \<longrightarrow>
         settles pa < length (promises s) \<and> promises s ! settles pa = Pending) \<and>
      (\<forall>k k' pa pa'. pendingApprovals s k = Some pa \<and> pendingApprovals s k' = Some pa' \<and>
         settles pa = settles pa' \<longrightarrow> k = k'))"

text \<open>A pending promise that no entry of the map can settle any more.\<close>

definition orphaned :: "nat \<Rightarrow> PlanApprovalService \<Rightarrow> bool" where
  "orphaned p s =
     (p < length (promises s) \<and> promises s ! p = Pending \<and>
      (\<forall>k pa. pendingApprovals s k = Some pa \<longrightarrow> settles pa \<noteq> p))"

section \<open>JavaScript string operations\<close>

definition newline :: char where
  "newline = CHR 0x0A"

text \<open>\<^verbatim>\<open>s.startsWith(p)\<close>.\<close>

definition startsWith :: "string \<Rightarrow> string \<Rightarrow> bool" where
  "startsWith s p = (take (length p) s = p)"

text \<open>\<^verbatim>\<open>s.split(c)\<close> for a separator of one character: never an empty array.\<close>

fun split_on :: "char \<Rightarrow> string \<Rightarrow> string list" where
  "split_on c [] = [[]]"
| "split_on c (x # xs) =
     (if x = c then [] # split_on c xs
      else (case split_on c xs of [] \<Rightarrow> [[x]] | l # ls \<Rightarrow> (x # l) # ls))"

text \<open>\<^verbatim>\<open>s.replace(pat, rep)\<close> with a string pattern: the first occurrence only.\<close>

fun replace_first :: "string \<Rightarrow> string \<Rightarrow> string \<Rightarrow> string" where
  "replace_first pat rep [] = (if pat = [] then rep else [])"
| "replace_first pat rep (c # cs) =
     (if startsWith (c # cs) pat then rep @ drop (length pat) (c # cs)
      else c # replace_first pat rep cs)"

text \<open>\<^verbatim>\<open>lines.join('\n')\<close>.\<close>

fun join_lines :: "string list \<Rightarrow> string" where
  "join_lines [] = []"
| "join_lines [l] = l"
| "join_lines (l # ls) = l @ newline # join_lines ls"

section \<open>Worktree manager: apps/server/src/services/auto-mode/worktree-manager.ts\<close>

text \<open>
  The functions of Node's \<^verbatim>\<open>path\<close> module the code calls. They differ between platforms,
  so the embedding takes them as a parameter.
\<close>

record path_module =
  isAbsolute :: "string \<Rightarrow> bool"
  path_resolve :: "string list \<Rightarrow> string"

text \<open>
  The \<^verbatim>\<open>resolvedPath\<close> expression, which occurs twice in \<^verbatim>\<open>findWorktreeForBranch\<close>.
\<close>

definition resolvedPath :: "path_module \<Rightarrow> string \<Rightarrow> string \<Rightarrow> string" where
  "resolvedPath P projectPath currentPath =
     (if isAbsolute P currentPath then path_resolve P [currentPath]
      else path_resolve P [projectPath, currentPath])"

text \<open>One turn of the loop over the lines: it returns a path, or goes on.\<close>

datatype scan_step = Found string | Go "string option" "string option"

definition loop_line ::
  "path_module \<Rightarrow> string \<Rightarrow> string \<Rightarrow> string \<Rightarrow> string option \<Rightarrow> string option \<Rightarrow> scan_step"
  where
  "loop_line P projectPath branchName line currentPath currentBranch =
     (if startsWith line ''worktree '' then Go (Some (drop 9 line)) currentBranch
      else if startsWith line ''branch '' then
        Go currentPath (Some (replace_first ''refs/heads/'' [] (drop 7 line)))
      else if line = [] \<and> truthy currentPath \<and> truthy currentBranch then
        (if currentBranch = Some branchName
         then Found (resolvedPath P projectPath (or_else currentPath []))
         else Go None None)
      else Go currentPath currentBranch)"

text \<open>The check after the loop, for a last entry that no blank line ends.\<close>

definition last_entry ::
  "path_module \<Rightarrow> string \<Rightarrow> string \<Rightarrow> string option \<Rightarrow> string option \<Rightarrow> string option"
  where
  "last_entry P projectPath branchName currentPath currentBranch =
     (if truthy currentPath \<and> truthy currentBranch \<and> currentBranch = Some branchName
      then Some (resolvedPath P projectPath (or_else currentPath []))
      else None)"

fun scan_lines ::
  "path_module \<Rightarrow> string \<Rightarrow> string \<Rightarrow> string list \<Rightarrow> string option \<Rightarrow> string option \<Rightarrow>
     string option" where
  "scan_lines P projectPath branchName [] currentPath currentBranch =
     last_entry P projectPath branchName currentPath currentBranch"
| "scan_lines P projectPath branchName (line # rest) currentPath currentBranch =
     (case loop_line P projectPath branchName line currentPath currentBranch of
        Found r \<Rightarrow> Some r
      | Go currentPath' currentBranch' \<Rightarrow>
          scan_lines P projectPath branchName rest currentPath' currentBranch')"

text \<open>
  \<^verbatim>\<open>findWorktreeForBranch\<close>. The parameter \<open>git\<close> stands for running
  \<^verbatim>\<open>git worktree list --porcelain\<close> in a directory: the standard output, or \<open>None\<close> when
  the command fails, which the \<^verbatim>\<open>catch\<close> block turns into \<^verbatim>\<open>null\<close>.
\<close>

definition findWorktreeForBranch ::
  "path_module \<Rightarrow> (string \<Rightarrow> string option) \<Rightarrow> string \<Rightarrow> string \<Rightarrow> string option" where
  "findWorktreeForBranch P git projectPath branchName =
     (case git projectPath of
        None \<Rightarrow> None
      | Some stdout \<Rightarrow>
          scan_lines P projectPath branchName (split_on newline stdout) None None)"

record WorkDirResult =
  workDir :: string
  worktreePath :: "string option"

definition resolveWorkDir ::
  "path_module \<Rightarrow> (string \<Rightarrow> string option) \<Rightarrow> string \<Rightarrow> string option \<Rightarrow> bool \<Rightarrow>
     WorkDirResult" where
  "resolveWorkDir P git projectPath branchName useWorktrees =
     (let found =
            (if useWorktrees \<and> truthy branchName
             then findWorktreeForBranch P git projectPath (or_else branchName [])
             else None)
      in \<lparr>workDir =
            (if truthy found then path_resolve P [or_else found []]
             else path_resolve P [projectPath]),
          worktreePath = found\<rparr>)"

text \<open>
  The porcelain listing: one entry per worktree, which is a \<^verbatim>\<open>worktree\<close> line with the
  path, attribute lines such as \<^verbatim>\<open>HEAD\<close>, a \<^verbatim>\<open>branch\<close> line with the full ref when a branch
  is checked out, more attribute lines, and a blank line.
\<close>

record worktree_entry =
  wt_path :: string
  wt_head :: "string list"
  wt_branch :: "string option"
  wt_tail :: "string list"

definition entry_lines :: "worktree_entry \<Rightarrow> string list" where
  "entry_lines e =
     (''worktree '' @ wt_path e) # wt_head e @
     (case wt_branch e of None \<Rightarrow> [] | Some b \<Rightarrow> [''branch refs/heads/'' @ b]) @ wt_tail e"

definition listing_lines :: "worktree_entry list \<Rightarrow> string list" where
  "listing_lines es = concat (map (\<lambda>e. entry_lines e @ [[]]) es)"

definition attribute_line :: "string \<Rightarrow> bool" where
  "attribute_line l =
     (l \<noteq> [] \<and> newline \<notin> set l \<and> \<not> startsWith l ''worktree '' \<and> \<not> startsWith l ''branch '')"

definition wf_entry :: "worktree_entry \<Rightarrow> bool" where
  "wf_entry e =
     (wt_path e \<noteq> [] \<and> newline \<notin> set (wt_path e) \<and>
      (case wt_branch e of None \<Rightarrow> True | Some b \<Rightarrow> b \<noteq> [] \<and> newline \<notin> set b) \<and>
      list_all attribute_line (wt_head e @ wt_tail e))"

text \<open>The branch a \<^verbatim>\<open>branch\<close> line records, as the loop reads it.\<close>

definition recorded_branches :: "string list \<Rightarrow> string list" where
  "recorded_branches ls =
     map (\<lambda>l. replace_first ''refs/heads/'' [] (drop 7 l))
       (filter (\<lambda>l. startsWith l ''branch '') ls)"

text \<open>The path the code returns for the first entry of the listing with the branch.\<close>

definition expected ::
  "path_module \<Rightarrow> string \<Rightarrow> string \<Rightarrow> worktree_entry list \<Rightarrow> string option" where
  "expected P projectPath branchName es =
     (case find (\<lambda>e. wt_branch e = Some branchName) es of
        None \<Rightarrow> None
      | Some e \<Rightarrow> Some (resolvedPath P projectPath (wt_path e)))"

text \<open>
  Node's \<^verbatim>\<open>path\<close> module on a POSIX system, after its documentation, for a process whose
  working directory is the absolute path \<open>cwd\<close>. \<^verbatim>\<open>path.resolve\<close> goes through its
  arguments from the right until the path is absolute, taking \<open>cwd\<close> when they do not
  make it so, and normalizes: empty and \<^verbatim>\<open>.\<close> segments go, \<^verbatim>\<open>..\<close> removes the segment
  before it, and no slash stays at the end.
\<close>

fun absolute_join :: "string list \<Rightarrow> string" where
  "absolute_join [] = []"
| "absolute_join (p # ps) =
     (if p = [] then absolute_join ps
      else if take 1 p = ''/'' then p
      else absolute_join ps @ ''/'' @ p)"

fun normalize_segments :: "string list \<Rightarrow> string list \<Rightarrow> string list" where
  "normalize_segments [] acc = rev acc"
| "normalize_segments (seg # segs) acc =
     (if seg = [] \<or> seg = ''.'' then normalize_segments segs acc
      else if seg = ''..'' then normalize_segments segs (tl acc)
      else normalize_segments segs (seg # acc))"

definition posix_resolve :: "string \<Rightarrow> string list \<Rightarrow> string" where
  "posix_resolve cwd args =
     (case normalize_segments (split_on CHR ''/'' (absolute_join (rev args @ [cwd]))) [] of
        [] \<Rightarrow> ''/''
      | segs \<Rightarrow> concat (map (\<lambda>seg. CHR ''/'' # seg) segs))"

definition posix :: "string \<Rightarrow> path_module" where
  "posix cwd = \<lparr>isAbsolute = (\<lambda>p. take 1 p = ''/''), path_resolve = posix_resolve cwd\<rparr>"

section \<open>Regular expressions\<close>


definition is_line_terminator :: "char \<Rightarrow> bool" where
  "is_line_terminator c = (c = CHR 0x0A \<or> c = CHR 0x0D)"






text \<open>
  The patterns the code uses are built from literals, one character of a class, the
  quantifiers \<^verbatim>\<open>*\<close>, \<^verbatim>\<open>*?\<close> and \<^verbatim>\<open>+\<close> on a class, sequence, an optional part, capture
  groups, and \<^verbatim>\<open>$\<close> without and with the \<^verbatim>\<open>m\<close> flag.
\<close>

datatype rx =
    Lit string
  | One "char \<Rightarrow> bool"
  | Star "char \<Rightarrow> bool"
  | Lazy "char \<Rightarrow> bool"
  | Plus "char \<Rightarrow> bool"
  | Seq rx rx
  | Opt rx
  | Group nat rx
  | End
  | EndLine

type_synonym captures = "(nat \<times> string) list"

text \<open>
  Backtracking: from the input that is left and the groups captured so far, a pattern
  gives every way to match a prefix of the input, in the order a backtracking matcher
  tries them: a greedy quantifier the longest first, a lazy one the shortest first, an
  optional part before its absence.
\<close>

fun rx_match :: "rx \<Rightarrow> string \<times> captures \<Rightarrow> (string \<times> captures) list" where
  "rx_match (Lit l) (inp, caps) =
     (if startsWith inp l then [(drop (length l) inp, caps)] else [])"
| "rx_match (One p) (inp, caps) =
     (case inp of [] \<Rightarrow> [] | c # cs \<Rightarrow> if p c then [(cs, caps)] else [])"
| "rx_match (Star p) (inp, caps) =
     map (\<lambda>k. (drop k inp, caps)) (rev [0 ..< Suc (length (takeWhile p inp))])"
| "rx_match (Lazy p) (inp, caps) =
     map (\<lambda>k. (drop k inp, caps)) [0 ..< Suc (length (takeWhile p inp))]"
| "rx_match (Plus p) (inp, caps) =
     map (\<lambda>k. (drop k inp, caps)) (rev [1 ..< Suc (length (takeWhile p inp))])"
| "rx_match (Seq a b) st = concat (map (rx_match b) (rx_match a st))"
| "rx_match (Opt a) st = rx_match a st @ [st]"
| "rx_match (Group i a) (inp, caps) =
     map (\<lambda>(rest, caps'). (rest, (i, take (length inp - length rest) inp) # caps'))
       (rx_match a (inp, caps))"
| "rx_match End (inp, caps) = (if inp = [] then [(inp, caps)] else [])"
| "rx_match EndLine (inp, caps) =
     (case inp of [] \<Rightarrow> [(inp, caps)]
      | c # cs \<Rightarrow> if is_line_terminator c then [(inp, caps)] else [])"






section \<open>Task parser: libs/prompts/src/planning.ts\<close>

datatype TaskStatus = TaskPending | TaskInProgress | TaskCompleted | TaskFailed

























text \<open>The first way a pattern matches from a state.\<close>

definition first_match :: "rx \<Rightarrow> string \<times> captures \<Rightarrow> string \<times> captures \<Rightarrow> bool" where
  "first_match r st y = (case rx_match r st of [] \<Rightarrow> False | x # xs \<Rightarrow> x = y)"


section \<open>Properties of the stream processor\<close>

lemma onText_calls_append: "onText_calls (xs @ ys) = onText_calls xs @ onText_calls ys"
  by (induction xs rule: onText_calls.induct) simp_all


lemma processContentBlock_effect:
  "processContentBlock b h f =
     f\<lparr>accumulatedText := accumulatedText f @ concat (emits [b]),
       calls := calls (processContentBlock b h f)\<rparr>"
  by (cases "b_text b"; cases "b_name b"; cases "b_thinking b")
     (simp_all add: processContentBlock_def emits_def is_text_block_def block_text_def Let_def)

lemma processContentBlock_onText:
  "onText_calls (calls (processContentBlock b h f)) =
     onText_calls (calls f) @ (if onText h then emits [b] else [])"
  by (cases "b_text b"; cases "b_name b"; cases "b_thinking b")
     (simp_all add: processContentBlock_def emits_def is_text_block_def block_text_def Let_def
        onText_calls_append)

lemma emits_Cons: "emits (b # bs) = emits [b] @ emits bs"
  by (simp add: emits_def)

lemma fold_blocks_text:
  "accumulatedText (fold (\<lambda>b. processContentBlock b h) bs f) =
     accumulatedText f @ concat (emits bs)"
proof (induction bs arbitrary: f)
  case Nil
  show ?case by (simp add: emits_def)
next
  case (Cons b bs)
  have "accumulatedText (processContentBlock b h f) = accumulatedText f @ concat (emits [b])"
    by (subst processContentBlock_effect) simp
  with Cons show ?case
    by (simp add: emits_Cons [of b bs])
qed

lemma fold_blocks_onText:
  "onText_calls (calls (fold (\<lambda>b. processContentBlock b h) bs f)) =
     onText_calls (calls f) @ (if onText h then emits bs else [])"
proof (induction bs arbitrary: f)
  case Nil
  show ?case by (simp add: emits_def)
next
  case (Cons b bs)
  show ?case
    by (simp add: Cons processContentBlock_onText emits_Cons [of b bs])
qed

lemma fold_blocks_locals:
  "success (fold (\<lambda>b. processContentBlock b h) bs f) = success f \<and>
   errorMessage (fold (\<lambda>b. processContentBlock b h) bs f) = errorMessage f \<and>
   resultMessage (fold (\<lambda>b. processContentBlock b h) bs f) = resultMessage f"
proof (induction bs arbitrary: f)
  case Nil
  show ?case by simp
next
  case (Cons b bs)
  have "success (processContentBlock b h f) = success f \<and>
        errorMessage (processContentBlock b h f) = errorMessage f \<and>
        resultMessage (processContentBlock b h f) = resultMessage f"
    by (subst (1 2 3) processContentBlock_effect) simp
  with Cons show ?case by simp
qed

lemma emitted_texts_Cons: "emitted_texts (m # ms) = emitted_texts [m] @ emitted_texts ms"
  by (simp add: emitted_texts_def text_content_blocks_def)

lemma emitted_texts_assistant:
  "m_type m = ''assistant'' \<Longrightarrow> m_content m = Some content \<Longrightarrow>
   emitted_texts [m] = emits content"
  by (simp add: emitted_texts_def text_content_blocks_def message_text_blocks_def emits_def)

lemma emitted_texts_other:
  "\<not> (m_type m = ''assistant'' \<and> m_content m \<noteq> None) \<Longrightarrow> emitted_texts [m] = []"
  by (auto simp: emitted_texts_def text_content_blocks_def message_text_blocks_def
      split: option.splits)






lemma loop_body_error:
  "m_type e = ''error'' \<Longrightarrow>
   loop_body e h f =
     Throw (f\<lparr>success := False, errorMessage := Some (or_else (m_error e) ''Unknown error''),
              calls := calls f @
                (if onError h then [OnError (or_else (m_error e) ''Unknown error'')] else [])\<rparr>)
       (or_else (m_error e) ''Unknown error'')"
  by (simp add: loop_body_def Let_def)

lemma loop_body_no_error:
  assumes "m_type m \<noteq> ''error''"
  shows "\<exists>f'. loop_body m h f = Normal f' \<and>
           accumulatedText f' = accumulatedText f @ concat (emitted_texts [m]) \<and>
           onText_calls (calls f') =
             onText_calls (calls f) @ (if onText h then emitted_texts [m] else []) \<and>
           success f' = success f \<and> errorMessage f' = errorMessage f"
proof (cases "m_type m = ''assistant'' \<and> m_content m \<noteq> None")
  case True
  then obtain content where c: "m_content m = Some content" by auto
  with True have "loop_body m h f = Normal (fold (\<lambda>b. processContentBlock b h) content f)"
    by (simp add: loop_body_def)
  moreover from True c have "emitted_texts [m] = emits content"
    by (simp add: emitted_texts_assistant)
  ultimately show ?thesis
    by (simp add: fold_blocks_text fold_blocks_onText fold_blocks_locals)
next
  case False
  then have e: "emitted_texts [m] = []"
    by (rule emitted_texts_other)
  from False assms show ?thesis
    by (auto simp: loop_body_def Let_def e onText_calls_append)
qed

lemma for_await_no_error:
  assumes "\<forall>m \<in> set xs. m_type m \<noteq> ''error''"
  shows "\<exists>f'. for_await xs h f = (f', None, []) \<and>
           accumulatedText f' = accumulatedText f @ concat (emitted_texts xs) \<and>
           onText_calls (calls f') =
             onText_calls (calls f) @ (if onText h then emitted_texts xs else []) \<and>
           success f' = success f \<and> errorMessage f' = errorMessage f"
  using assms
proof (induction xs arbitrary: f)
  case Nil
  show ?case by (simp add: emitted_texts_def text_content_blocks_def)
next
  case (Cons m ms)
  from Cons.prems have "m_type m \<noteq> ''error''" by simp
  from loop_body_no_error [OF this, of h f] obtain f1 where
    f1: "loop_body m h f = Normal f1"
      "accumulatedText f1 = accumulatedText f @ concat (emitted_texts [m])"
      "onText_calls (calls f1) =
         onText_calls (calls f) @ (if onText h then emitted_texts [m] else [])"
      "success f1 = success f" "errorMessage f1 = errorMessage f"
    by blast
  from Cons.prems have "\<forall>m \<in> set ms. m_type m \<noteq> ''error''" by simp
  from Cons.IH [OF this, of f1] obtain f2 where
    f2: "for_await ms h f1 = (f2, None, [])"
      "accumulatedText f2 = accumulatedText f1 @ concat (emitted_texts ms)"
      "onText_calls (calls f2) =
         onText_calls (calls f1) @ (if onText h then emitted_texts ms else [])"
      "success f2 = success f1" "errorMessage f2 = errorMessage f1"
    by blast
  from f1 f2 show ?case
    by (simp add: emitted_texts_Cons [of m ms])
qed

lemma for_await_append:
  "for_await xs h f = (f', None, r) \<Longrightarrow> for_await (xs @ ys) h f = for_await ys h f'"
  by (induction xs arbitrary: f) (auto split: completion.splits)

lemma for_await_completes:
  "for_await xs h f = (f', None, r) \<Longrightarrow> r = [] \<and> (\<forall>m \<in> set xs. m_type m \<noteq> ''error'')"
proof (induction xs arbitrary: f)
  case Nil
  then show ?case by simp
next
  case (Cons m ms)
  show ?case
  proof (cases "m_type m = ''error''")
    case True
    from loop_body_error [OF True, of h f] Cons.prems show ?thesis by simp
  next
    case False
    from loop_body_no_error [OF False, of h f] obtain f1 where "loop_body m h f = Normal f1"
      by blast
    with Cons.prems Cons.IH [of f1] False show ?thesis by simp
  qed
qed

lemma for_await_skip:
  assumes "\<And>f. loop_body m h f = Normal f"
  shows "(case for_await (xs @ m # ys) h f of (f', e, r) \<Rightarrow> (f', e)) =
         (case for_await (xs @ ys) h f of (f', e, r) \<Rightarrow> (f', e))"
  by (induction xs arbitrary: f) (simp_all add: assms split: completion.splits)

lemma processStream_skip:
  assumes "\<And>f. loop_body m h f = Normal f"
  shows "processStream (xs @ m # ys) h = processStream (xs @ ys) h"
proof -
  obtain f1 e1 r1 where a: "for_await (xs @ m # ys) h initial_frame = (f1, e1, r1)"
    by (cases "for_await (xs @ m # ys) h initial_frame") auto
  obtain f2 e2 r2 where b: "for_await (xs @ ys) h initial_frame = (f2, e2, r2)"
    by (cases "for_await (xs @ ys) h initial_frame") auto
  from for_await_skip [of m h xs ys initial_frame, OF assms] a b
  have "f1 = f2" "e1 = e2" by simp_all
  with a b show ?thesis
    by (simp add: processStream_def try_catch_def split: option.splits)
qed

lemma failure_result_body:
  "m_type m = ''result'' \<Longrightarrow> m_subtype m \<noteq> Some ''success'' \<Longrightarrow> loop_body m h f = Normal f"
  by (simp add: loop_body_def)

text \<open>
  Claim C8. On the sequence of two assistant messages with the texts "Hello " and "world"
  followed by a successful result "done", with no handlers, \<^verbatim>\<open>processStream\<close> returns the
  text "Hello world", success, no error and the result "done", and invokes nothing.
\<close>

theorem processStream_hello_world: "processStream [assistant_text ''Hello '', assistant_text ''world'', result_message ''success'' ''done''] no_handlers
   = ([], Inr \<lparr>r_text = ''Hello world'', r_success = True, r_error = None, r_result = Some ''done''\<rparr>)"
  by (simp add: processStream_def try_catch_def loop_body_def processContentBlock_def
      initial_frame_def assistant_text_def assistant_def text_block_def result_message_def
      no_handlers_def)


text \<open>
  Claim C10. A result message whose subtype is not \<^verbatim>\<open>success\<close> is ignored: the loop body
  leaves the frame as it is (so \<^verbatim>\<open>onComplete\<close> is not invoked and no result is captured),
  the stream is processed as if the message were not there, alone it gives a result with
  no result field and success, and if no other message is an error message the function
  returns with success.
\<close>

theorem processStream_ignores_failure_result:
  assumes "m_type m = ''result''" and "m_subtype m \<noteq> Some ''success''"
  shows "loop_body m h f = Normal f \<and>
         processStream (xs @ m # ys) h = processStream (xs @ ys) h \<and>
         processStream [m] h =
           ([], Inr \<lparr>r_text = [], r_success = True, r_error = None, r_result = None\<rparr>) \<and>
         ((\<forall>x \<in> set (xs @ ys). m_type x \<noteq> ''error'') \<longrightarrow>
            (\<exists>cs r. processStream (xs @ m # ys) h = (cs, Inr r) \<and> r_success r))"
proof -
  have body: "\<And>f. loop_body m h f = Normal f"
    using assms by (rule failure_result_body)
  have skip: "processStream (xs @ m # ys) h = processStream (xs @ ys) h"
    using body by (rule processStream_skip)
  have single: "processStream [m] h =
      ([], Inr \<lparr>r_text = [], r_success = True, r_error = None, r_result = None\<rparr>)"
    by (simp add: processStream_def try_catch_def body initial_frame_def)
  have returns: "\<exists>cs r. processStream (xs @ m # ys) h = (cs, Inr r) \<and> r_success r"
    if "\<forall>x \<in> set (xs @ ys). m_type x \<noteq> ''error''"
  proof -
    from for_await_no_error [OF that, of h initial_frame] obtain f' where
      "for_await (xs @ ys) h initial_frame = (f', None, [])" "success f'"
      by (auto simp: initial_frame_def)
    then show ?thesis
      unfolding skip by (simp add: processStream_def try_catch_def)
  qed
  from body skip single returns show ?thesis by blast
qed

text \<open>
  Claim C3. \<^verbatim>\<open>processStream\<close> returns exactly when the sequence has no error message.
  At the first error message \<open>e\<close>, after the error-free messages \<open>xs\<close>, it sets
  \<^verbatim>\<open>success\<close> to false and \<^verbatim>\<open>errorMessage\<close> to the message, invokes \<^verbatim>\<open>onError\<close> (when
  supplied) with it after the invocations made for \<open>xs\<close>, throws an error with that
  message and leaves the following messages \<open>ys\<close> unconsumed. The text of \<open>xs\<close> is in
  the frame that is given up, and has gone to \<^verbatim>\<open>onText\<close>; the caller gets the error.
\<close>

theorem processStream_error_short_circuit:
  assumes "\<forall>m \<in> set xs. m_type m \<noteq> ''error''" and "m_type e = ''error''"
  shows "((\<exists>cs r. processStream stream h = (cs, Inr r)) \<longleftrightarrow>
            (\<forall>m \<in> set stream. m_type m \<noteq> ''error'')) \<and>
         (\<exists>f. try_catch xs h = (f, None, []) \<and>
            accumulatedText f = concat (emitted_texts xs) \<and>
            onText_calls (calls f) = (if onText h then emitted_texts xs else []) \<and>
            try_catch (xs @ e # ys) h =
              (f\<lparr>success := False,
                 errorMessage := Some (or_else (m_error e) ''Unknown error''),
                 calls := calls f @
                   (if onError h then [OnError (or_else (m_error e) ''Unknown error'')] else [])\<rparr>,
               Some (or_else (m_error e) ''Unknown error''), ys) \<and>
            processStream (xs @ e # ys) h =
              (calls f @
                 (if onError h then [OnError (or_else (m_error e) ''Unknown error'')] else []),
               Inl (or_else (m_error e) ''Unknown error'')))"
proof -
  let ?em = "or_else (m_error e) ''Unknown error''"
  have iff: "(\<exists>cs r. processStream stream h = (cs, Inr r)) \<longleftrightarrow>
      (\<forall>m \<in> set stream. m_type m \<noteq> ''error'')"
  proof
    assume "\<exists>cs r. processStream stream h = (cs, Inr r)"
    then obtain f r where "for_await stream h initial_frame = (f, None, r)"
      by (cases "for_await stream h initial_frame")
         (auto simp: processStream_def try_catch_def split: option.splits)
    then show "\<forall>m \<in> set stream. m_type m \<noteq> ''error''"
      using for_await_completes by blast
  next
    assume "\<forall>m \<in> set stream. m_type m \<noteq> ''error''"
    from for_await_no_error [OF this, of h initial_frame] show
      "\<exists>cs r. processStream stream h = (cs, Inr r)"
      by (auto simp: processStream_def try_catch_def)
  qed
  from for_await_no_error [OF assms(1), of h initial_frame] obtain f where
    f: "for_await xs h initial_frame = (f, None, [])"
    and partial: "accumulatedText f = concat (emitted_texts xs)"
      "onText_calls (calls f) = (if onText h then emitted_texts xs else [])"
    by (auto simp: initial_frame_def)
  have em: "?em \<noteq> []"
    by (cases "m_error e") auto
  have "for_await (xs @ e # ys) h initial_frame = for_await (e # ys) h f"
    using f by (rule for_await_append)
  then have run: "for_await (xs @ e # ys) h initial_frame =
      (f\<lparr>success := False, errorMessage := Some ?em,
         calls := calls f @ (if onError h then [OnError ?em] else [])\<rparr>, Some ?em, ys)"
    by (simp add: loop_body_error [OF assms(2)])
  have t1: "try_catch xs h = (f, None, [])"
    by (simp add: try_catch_def f)
  have t2: "try_catch (xs @ e # ys) h =
      (f\<lparr>success := False, errorMessage := Some ?em,
         calls := calls f @ (if onError h then [OnError ?em] else [])\<rparr>, Some ?em, ys)"
    by (simp add: try_catch_def run catch_block_def em)
  have t3: "processStream (xs @ e # ys) h =
      (calls f @ (if onError h then [OnError ?em] else []), Inl ?em)"
    by (simp add: processStream_def t2)
  from iff t1 partial t2 t3 show ?thesis by blast
qed






theorem processStream_error_short_circuit_witness:
  "try_catch [assistant_text ''partial'', error_message ''boom'', assistant_text ''late'']
     all_handlers =
     (\<lparr>accumulatedText = ''partial'', success = False, errorMessage = Some ''boom'',
       resultMessage = None, calls = [OnText ''partial'', OnError ''boom'']\<rparr>,
      Some ''boom'', [assistant_text ''late'']) \<and>
   processStream [assistant_text ''partial'', error_message ''boom'', assistant_text ''late'']
     all_handlers = ([OnText ''partial'', OnError ''boom''], Inl ''boom'')"
  using processStream_error_short_circuit
    [of "[assistant_text ''partial'']" "error_message ''boom''" "[]" all_handlers
        "[assistant_text ''late'']"]
  by (simp add: processStream_def try_catch_def catch_block_def loop_body_def
      processContentBlock_def initial_frame_def assistant_text_def assistant_def
      text_block_def error_message_def all_handlers_def Let_def)

theorem processStream_ignores_failure_result_witness:
  "m_type (result_message ''error'' ''failed'') = ''result'' \<and>
   m_subtype (result_message ''error'' ''failed'') \<noteq> Some ''success'' \<and>
   processStream [assistant_text ''a'', result_message ''error'' ''failed''] all_handlers =
     ([OnText ''a''], Inr \<lparr>r_text = ''a'', r_success = True, r_error = None, r_result = None\<rparr>)"
  using processStream_ignores_failure_result
    [of "result_message ''error'' ''failed''" all_handlers undefined "[assistant_text ''a'']" "[]"]
  by (simp add: processStream_def try_catch_def loop_body_def processContentBlock_def
      initial_frame_def assistant_text_def assistant_def text_block_def result_message_def
      all_handlers_def Let_def)

section \<open>Properties of the plan approval service\<close>

lemma entries_pending_new: "entries_pending new_service"
  by (simp add: entries_pending_def new_service_def)

lemma waitForApproval_sel:
  "fst (waitForApproval k path s) = length (promises s)"
  "pendingApprovals (snd (waitForApproval k path s)) =
     (pendingApprovals s)(k \<mapsto>
        \<lparr>settles = length (promises s), pa_featureId = k, pa_projectPath = path\<rparr>)"
  "promises (snd (waitForApproval k path s)) = promises s @ [Pending]"
  by (simp_all add: waitForApproval_def Let_def)

lemma entries_pendingD:
  "entries_pending s \<Longrightarrow> pendingApprovals s k = Some pa \<Longrightarrow>
   settles pa < length (promises s) \<and> promises s ! settles pa = Pending"
  unfolding entries_pending_def by blast

lemma entries_pending_inj:
  "entries_pending s \<Longrightarrow> pendingApprovals s k = Some pa \<Longrightarrow>
   pendingApprovals s k' = Some pa' \<Longrightarrow> settles pa = settles pa' \<Longrightarrow> k = k'"
  unfolding entries_pending_def by blast

lemma entries_pendingI:
  assumes "\<And>k pa. pendingApprovals s k = Some pa \<Longrightarrow>
             settles pa < length (promises s) \<and> promises s ! settles pa = Pending"
    and "\<And>k k' pa pa'. pendingApprovals s k = Some pa \<Longrightarrow> pendingApprovals s k' = Some pa' \<Longrightarrow>
             settles pa = settles pa' \<Longrightarrow> k = k'"
  shows "entries_pending s"
  unfolding entries_pending_def using assms by blast

lemma entries_pending_wait:
  assumes "entries_pending s"
  shows "entries_pending (snd (waitForApproval k path s))"
proof (rule entries_pendingI)
  fix j pa
  assume "pendingApprovals (snd (waitForApproval k path s)) j = Some pa"
  then have "settles pa = length (promises s) \<or> pendingApprovals s j = Some pa"
    by (auto simp: waitForApproval_sel split: if_splits)
  then show "settles pa < length (promises (snd (waitForApproval k path s))) \<and>
      promises (snd (waitForApproval k path s)) ! settles pa = Pending"
  proof
    assume "settles pa = length (promises s)"
    then show ?thesis by (simp add: waitForApproval_sel)
  next
    assume "pendingApprovals s j = Some pa"
    from entries_pendingD [OF assms this] show ?thesis
      by (simp add: waitForApproval_sel nth_append)
  qed
next
  fix j j' pa pa'
  assume a: "pendingApprovals (snd (waitForApproval k path s)) j = Some pa"
    and b: "pendingApprovals (snd (waitForApproval k path s)) j' = Some pa'"
    and eq: "settles pa = settles pa'"
  from a have a': "(j = k \<and> settles pa = length (promises s)) \<or>
      (j \<noteq> k \<and> pendingApprovals s j = Some pa)"
    by (auto simp: waitForApproval_sel split: if_splits)
  from b have b': "(j' = k \<and> settles pa' = length (promises s)) \<or>
      (j' \<noteq> k \<and> pendingApprovals s j' = Some pa')"
    by (auto simp: waitForApproval_sel split: if_splits)
  from a' b' eq entries_pendingD [OF assms] entries_pending_inj [OF assms]
  show "j = j'"
    by (metis less_irrefl)
qed

lemma entries_pending_remove:
  assumes "entries_pending s" and "pendingApprovals s k = Some pending"
  shows "entries_pending
    \<lparr>pendingApprovals = (pendingApprovals s)(k := None),
     promises = settle (settles pending) outcome (promises s)\<rparr>"
proof (rule entries_pendingI)
  fix j pa
  assume "pendingApprovals \<lparr>pendingApprovals = (pendingApprovals s)(k := None),
     promises = settle (settles pending) outcome (promises s)\<rparr> j = Some pa"
  then have j: "j \<noteq> k" "pendingApprovals s j = Some pa"
    by (auto split: if_splits)
  from entries_pending_inj [OF assms(1) j(2) assms(2)] j(1)
  have ne: "settles pa \<noteq> settles pending" by blast
  from entries_pendingD [OF assms(1) j(2)] ne
  show "settles pa < length (promises \<lparr>pendingApprovals = (pendingApprovals s)(k := None),
          promises = settle (settles pending) outcome (promises s)\<rparr>) \<and>
      promises \<lparr>pendingApprovals = (pendingApprovals s)(k := None),
          promises = settle (settles pending) outcome (promises s)\<rparr> ! settles pa = Pending"
    by (simp add: settle_def)
next
  fix j j' pa pa'
  assume "pendingApprovals \<lparr>pendingApprovals = (pendingApprovals s)(k := None),
       promises = settle (settles pending) outcome (promises s)\<rparr> j = Some pa"
    and "pendingApprovals \<lparr>pendingApprovals = (pendingApprovals s)(k := None),
       promises = settle (settles pending) outcome (promises s)\<rparr> j' = Some pa'"
    and eq: "settles pa = settles pa'"
  then have "pendingApprovals s j = Some pa" "pendingApprovals s j' = Some pa'"
    by (auto split: if_splits)
  from entries_pending_inj [OF assms(1) this eq] show "j = j'" .
qed

lemma entries_pending_resolve:
  assumes "entries_pending s"
  shows "entries_pending (snd (resolve k a e fb s))"
proof (cases "pendingApprovals s k")
  case None
  with assms show ?thesis by (simp add: resolve_def)
next
  case (Some pa)
  from entries_pending_remove [OF assms Some] show ?thesis
    by (simp add: resolve_def Some)
qed

lemma entries_pending_cancel:
  assumes "entries_pending s"
  shows "entries_pending (cancel k s)"
proof (cases "pendingApprovals s k")
  case None
  with assms show ?thesis by (simp add: cancel_def)
next
  case (Some pa)
  from entries_pending_remove [OF assms Some] show ?thesis
    by (simp add: cancel_def Some)
qed

lemma entries_pending_perform: "entries_pending s \<Longrightarrow> entries_pending (perform r s)"
  by (cases r) (simp_all add: entries_pending_wait entries_pending_resolve entries_pending_cancel)

lemma entries_pending_run: "entries_pending s \<Longrightarrow> entries_pending (run reqs s)"
  unfolding run_def by (induction reqs arbitrary: s) (simp_all add: entries_pending_perform)

lemma orphaned_remove:
  assumes "orphaned p s" and "pendingApprovals s k = Some pending"
  shows "orphaned p
    \<lparr>pendingApprovals = (pendingApprovals s)(k := None),
     promises = settle (settles pending) outcome (promises s)\<rparr>"
proof -
  from assms have "settles pending \<noteq> p"
    unfolding orphaned_def by blast
  with assms(1) show ?thesis
    unfolding orphaned_def by (auto simp: settle_def split: if_splits)
qed

lemma orphaned_perform:
  assumes "orphaned p s"
  shows "orphaned p (perform r s)"
proof (cases r)
  case (WaitForApproval k path)
  from assms have "p < length (promises s)" "promises s ! p = Pending"
    "\<And>j pa. pendingApprovals s j = Some pa \<Longrightarrow> settles pa \<noteq> p"
    unfolding orphaned_def by blast+
  then show ?thesis
    unfolding WaitForApproval orphaned_def
    by (auto simp: waitForApproval_sel nth_append split: if_splits)
next
  case (Resolve k a e fb)
  show ?thesis
  proof (cases "pendingApprovals s k")
    case None
    with assms show ?thesis by (simp add: Resolve resolve_def)
  next
    case (Some pa)
    from orphaned_remove [OF assms Some] show ?thesis
      by (simp add: Resolve resolve_def Some)
  qed
next
  case (Cancel k)
  show ?thesis
  proof (cases "pendingApprovals s k")
    case None
    with assms show ?thesis by (simp add: Cancel cancel_def)
  next
    case (Some pa)
    from orphaned_remove [OF assms Some] show ?thesis
      by (simp add: Cancel cancel_def Some)
  qed
qed

lemma orphaned_run: "orphaned p s \<Longrightarrow> orphaned p (run reqs s)"
  unfolding run_def by (induction reqs arbitrary: s) (simp_all add: orphaned_perform)


lemma reachable_entries_pending: "entries_pending (run reqs new_service)"
  by (rule entries_pending_run [OF entries_pending_new])

lemma run_append: "run (xs @ ys) s = run ys (run xs s)"
  by (simp add: run_def)

text \<open>
  Claim C2. When the map has no entry for the feature, \<^verbatim>\<open>resolve\<close> returns no success
  with the error "No pending approval for feature ..." and leaves the service as it was.
  When it has one, \<^verbatim>\<open>resolve\<close> returns success and removes the entry, and a second
  \<^verbatim>\<open>resolve\<close> for the same feature returns no success and changes nothing.
\<close>

theorem resolve_unknown_feature:
  "(\<not> hasPending k s \<longrightarrow>
      resolve k a e fb s =
        (\<lparr>rr_success = False, rr_error = Some (''No pending approval for feature '' @ k),
          rr_projectPath = None\<rparr>, s)) \<and>
   (hasPending k s \<longrightarrow>
      rr_success (fst (resolve k a e fb s)) \<and>
      \<not> hasPending k (snd (resolve k a e fb s)) \<and>
      \<not> rr_success (fst (resolve k a' e' fb' (snd (resolve k a e fb s)))) \<and>
      snd (resolve k a' e' fb' (snd (resolve k a e fb s))) = snd (resolve k a e fb s))"
  by (cases "pendingApprovals s k") (simp_all add: hasPending_def resolve_def)

theorem resolve_unknown_feature_witness:
  "resolve ''f2'' True None None (snd (waitForApproval ''f1'' ''/p'' new_service)) =
     (\<lparr>rr_success = False, rr_error = Some ''No pending approval for feature f2'',
       rr_projectPath = None\<rparr>, snd (waitForApproval ''f1'' ''/p'' new_service)) \<and>
   rr_success (fst (resolve ''f1'' True None None
     (snd (waitForApproval ''f1'' ''/p'' new_service)))) \<and>
   \<not> rr_success (fst (resolve ''f1'' True None None
     (snd (resolve ''f1'' True None None (snd (waitForApproval ''f1'' ''/p'' new_service))))))"
  using resolve_unknown_feature
    [of "''f2''" "snd (waitForApproval ''f1'' ''/p'' new_service)" True None None True None None]
    resolve_unknown_feature
    [of "''f1''" "snd (waitForApproval ''f1'' ''/p'' new_service)" True None None True None None]
  by (simp add: hasPending_def waitForApproval_sel new_service_def)

text \<open>
  Claim C6. In a state the service can reach, \<^verbatim>\<open>cancel\<close> for a feature with an entry
  rejects the entry's promise, which was pending, with the cancellation error (so the
  promise is not fulfilled with any approval result), removes the entry, and
  \<^verbatim>\<open>hasPending\<close> is false afterwards; for a feature with no entry it changes nothing.
\<close>

theorem cancel_rejects_and_clears:
  assumes "s = run reqs new_service"
  shows "(hasPending k s \<longrightarrow>
           (\<exists>pending. pendingApprovals s k = Some pending \<and>
              settles pending < length (promises s) \<and>
              promises s ! settles pending = Pending \<and>
              promises (cancel k s) =
                (promises s)[settles pending :=
                   Rejected ''Plan approval cancelled - feature was stopped''] \<and>
              (\<forall>r. promises (cancel k s) ! settles pending \<noteq> Fulfilled r) \<and>
              pendingApprovals (cancel k s) = (pendingApprovals s)(k := None) \<and>
              \<not> hasPending k (cancel k s))) \<and>
         (\<not> hasPending k s \<longrightarrow> cancel k s = s)"
proof (cases "pendingApprovals s k")
  case None
  then show ?thesis by (simp add: hasPending_def cancel_def)
next
  case (Some pending)
  have "entries_pending s"
    unfolding assms by (rule reachable_entries_pending)
  from entries_pendingD [OF this Some]
  have p: "settles pending < length (promises s)" "promises s ! settles pending = Pending"
    by simp_all
  then show ?thesis
    by (simp add: hasPending_def cancel_def Some settle_def)
qed

theorem cancel_rejects_and_clears_witness:
  "promises (cancel ''f1'' (run [WaitForApproval ''f1'' ''/p''] new_service)) =
     [Rejected ''Plan approval cancelled - feature was stopped''] \<and>
   \<not> hasPending ''f1'' (cancel ''f1'' (run [WaitForApproval ''f1'' ''/p''] new_service)) \<and>
   cancel ''f2'' (run [WaitForApproval ''f1'' ''/p''] new_service) =
     run [WaitForApproval ''f1'' ''/p''] new_service"
  using cancel_rejects_and_clears
    [of "run [WaitForApproval ''f1'' ''/p''] new_service" "[WaitForApproval ''f1'' ''/p'']" "''f1''"]
    cancel_rejects_and_clears
    [of "run [WaitForApproval ''f1'' ''/p''] new_service" "[WaitForApproval ''f1'' ''/p'']" "''f2''"]
  by (auto simp: hasPending_def run_def waitForApproval_sel new_service_def)

text \<open>
  Claim C9. In a state the service can reach where the feature has an entry \<open>first\<close>, a
  further \<^verbatim>\<open>waitForApproval\<close> for the same feature replaces the entry by one for a new
  promise \<open>p2\<close>. The next \<^verbatim>\<open>resolve\<close> returns success and fulfils \<open>p2\<close>, a second one
  returns no success, and the promise of \<open>first\<close> stays pending whatever calls follow.
\<close>

theorem second_wait_orphans_first:
  assumes "s = run reqs new_service"
    and "pendingApprovals s k = Some first"
    and "p2 = fst (waitForApproval k path2 s)"
    and "s2 = snd (waitForApproval k path2 s)"
    and "s3 = snd (resolve k a e fb s2)"
  shows "p2 \<noteq> settles first \<and>
         pendingApprovals s2 k =
           Some \<lparr>settles = p2, pa_featureId = k, pa_projectPath = path2\<rparr> \<and>
         promises s2 ! settles first = Pending \<and>
         promises s2 ! p2 = Pending \<and>
         fst (resolve k a e fb s2) =
           \<lparr>rr_success = True, rr_error = None, rr_projectPath = Some path2\<rparr> \<and>
         promises s3 ! p2 = Fulfilled \<lparr>approved = a, editedPlan = e, feedback = fb\<rparr> \<and>
         promises s3 ! settles first = Pending \<and>
         \<not> rr_success (fst (resolve k a' e' fb' s3)) \<and>
         (\<forall>later. promises (run later s2) ! settles first = Pending)"
proof -
  have inv: "entries_pending s"
    unfolding assms(1) by (rule reachable_entries_pending)
  from entries_pendingD [OF inv assms(2)]
  have first: "settles first < length (promises s)" "promises s ! settles first = Pending"
    by simp_all
  have p2: "p2 = length (promises s)"
    by (simp add: assms(3) waitForApproval_sel)
  have entry: "pendingApprovals s2 k =
      Some \<lparr>settles = p2, pa_featureId = k, pa_projectPath = path2\<rparr>"
    by (simp add: assms(4) p2 waitForApproval_sel)
  have proms: "promises s2 = promises s @ [Pending]"
    by (simp add: assms(4) waitForApproval_sel)
  have orphan: "orphaned (settles first) s2"
    unfolding orphaned_def
  proof (intro conjI allI impI)
    show "settles first < length (promises s2)"
      using first by (simp add: proms)
    show "promises s2 ! settles first = Pending"
      using first by (simp add: proms nth_append)
  next
    fix j pa
    assume "pendingApprovals s2 j = Some pa"
    then have "settles pa = length (promises s) \<or> (j \<noteq> k \<and> pendingApprovals s j = Some pa)"
      by (auto simp: assms(4) waitForApproval_sel split: if_splits)
    then show "settles pa \<noteq> settles first"
    proof
      assume "settles pa = length (promises s)"
      with first show ?thesis by simp
    next
      assume "j \<noteq> k \<and> pendingApprovals s j = Some pa"
      with entries_pending_inj [OF inv _ assms(2)] show ?thesis by blast
    qed
  qed
  have never: "promises (run later s2) ! settles first = Pending" for later
    using orphaned_run [OF orphan, of later] by (simp add: orphaned_def)
  have s3: "s3 = run [Resolve k a e fb] s2"
    by (simp add: assms(5) run_def)
  have r: "fst (resolve k a e fb s2) =
      \<lparr>rr_success = True, rr_error = None, rr_projectPath = Some path2\<rparr>"
    by (simp add: resolve_def entry)
  have f: "promises s3 ! p2 = Fulfilled \<lparr>approved = a, editedPlan = e, feedback = fb\<rparr>"
    by (simp add: assms(5) resolve_def entry settle_def proms p2)
  have gone: "pendingApprovals s3 k = None"
    by (simp add: assms(5) resolve_def entry)
  then have again: "\<not> rr_success (fst (resolve k a' e' fb' s3))"
    by (simp add: resolve_def)
  from first p2 entry proms never [of "[]"] never [of "[Resolve k a e fb]"] r f again never
  show ?thesis
    by (simp add: s3 run_def nth_append)
qed

theorem second_wait_orphans_first_witness:
  "promises (snd (resolve ''f'' True None None
      (snd (waitForApproval ''f'' ''/p2'' (run [WaitForApproval ''f'' ''/p1''] new_service)))))
     = [Pending, Fulfilled \<lparr>approved = True, editedPlan = None, feedback = None\<rparr>] \<and>
   promises (run [Resolve ''f'' True None None, Cancel ''f'', Resolve ''f'' False None None]
      (snd (waitForApproval ''f'' ''/p2'' (run [WaitForApproval ''f'' ''/p1''] new_service))))
     ! 0 = Pending"
  using second_wait_orphans_first
    [of "run [WaitForApproval ''f'' ''/p1''] new_service" "[WaitForApproval ''f'' ''/p1'']"
        "''f''" "\<lparr>settles = 0, pa_featureId = ''f'', pa_projectPath = ''/p1''\<rparr>"
        "Suc 0" "''/p2''"
        "snd (waitForApproval ''f'' ''/p2'' (run [WaitForApproval ''f'' ''/p1''] new_service))"
        "snd (resolve ''f'' True None None
           (snd (waitForApproval ''f'' ''/p2'' (run [WaitForApproval ''f'' ''/p1''] new_service))))"
        True None None]
  by (simp add: run_def waitForApproval_sel new_service_def resolve_def cancel_def settle_def)

section \<open>Properties of the worktree manager\<close>

lemma split_on_not_Nil: "split_on c s \<noteq> []"
  by (induction s) (auto split: list.splits)

lemma split_on_line: "c \<notin> set l \<Longrightarrow> split_on c l = [l]"
  by (induction l) auto

lemma split_on_append:
  "c \<notin> set l \<Longrightarrow> split_on c (l @ c # s) = l # split_on c s"
  by (induction l) auto

lemma split_on_join:
  "ls \<noteq> [] \<Longrightarrow> \<forall>l \<in> set ls. newline \<notin> set l \<Longrightarrow> split_on newline (join_lines ls) = ls"
proof (induction ls rule: join_lines.induct)
  case 1
  then show ?case by simp
next
  case (2 l)
  then show ?case by (simp add: split_on_line)
next
  case (3 l l' ls)
  then show ?case by (simp add: split_on_append)
qed

lemma replace_first_prefix: "replace_first pat rep (pat @ s) = rep @ s"
proof (cases "pat @ s")
  case Nil
  then show ?thesis by simp
next
  case (Cons a list)
  have "startsWith (a # list) pat"
    unfolding startsWith_def Cons [symmetric] by simp
  then have "replace_first pat rep (a # list) = rep @ drop (length pat) (a # list)"
    by simp
  then show ?thesis
    unfolding Cons [symmetric] by simp
qed


lemma loop_line_worktree:
  "loop_line P pp bn (''worktree '' @ p) cp cb = Go (Some p) cb"
  by (simp add: loop_line_def startsWith_def)

lemma loop_line_branch:
  "loop_line P pp bn (''branch refs/heads/'' @ b) cp cb = Go cp (Some b)"
proof -
  have "replace_first ''refs/heads/'' [] (''refs/heads/'' @ b) = [] @ b"
    by (rule replace_first_prefix)
  then show ?thesis
    by (simp add: loop_line_def startsWith_def)
qed

lemma loop_line_attribute:
  "attribute_line l \<Longrightarrow> loop_line P pp bn l cp cb = Go cp cb"
  by (simp add: loop_line_def attribute_line_def)

lemma scan_attributes:
  "list_all attribute_line ls \<Longrightarrow>
   scan_lines P pp bn (ls @ rest) cp cb = scan_lines P pp bn rest cp cb"
  by (induction ls) (simp_all add: loop_line_attribute)

lemma loop_line_blank_unset:
  "loop_line P pp bn [] cp None = Go cp None"
  by (simp add: loop_line_def startsWith_def)

lemma loop_line_blank_set:
  "p \<noteq> [] \<Longrightarrow> b \<noteq> [] \<Longrightarrow>
   loop_line P pp bn [] (Some p) (Some b) =
     (if b = bn then Found (resolvedPath P pp p) else Go None None)"
  by (simp add: loop_line_def startsWith_def)

text \<open>An entry, read from a state with no branch: it is found, or the branch is none again.\<close>

lemma scan_entry:
  assumes "wf_entry e"
  shows "scan_lines P pp bn (entry_lines e @ [] # rest) cp None =
     (if wt_branch e = Some bn then Some (resolvedPath P pp (wt_path e))
      else scan_lines P pp bn rest (if wt_branch e = None then Some (wt_path e) else None) None)"
proof -
  from assms have attrs: "list_all attribute_line (wt_head e)" "list_all attribute_line (wt_tail e)"
    and path: "wt_path e \<noteq> []"
    by (simp_all add: wf_entry_def)
  show ?thesis
  proof (cases "wt_branch e")
    case None
    then show ?thesis
      by (simp add: entry_lines_def loop_line_worktree [simplified] scan_attributes [OF attrs(1)]
          scan_attributes [OF attrs(2)] loop_line_blank_unset)
  next
    case (Some b)
    with assms have b: "b \<noteq> []" by (simp add: wf_entry_def)
    from Some show ?thesis
      by (simp add: entry_lines_def loop_line_worktree [simplified] scan_attributes [OF attrs(1)]
          scan_attributes [OF attrs(2)] loop_line_branch [simplified]
          loop_line_blank_set [OF path b])
  qed
qed

lemma scan_listing:
  assumes "list_all wf_entry es"
    and "\<And>cp. scan_lines P pp bn rest cp None = r"
  shows "scan_lines P pp bn (listing_lines es @ rest) cp None =
     (case expected P pp bn es of None \<Rightarrow> r | Some p \<Rightarrow> Some p)"
  using assms(1)
proof (induction es arbitrary: cp)
  case Nil
  show ?case by (simp add: listing_lines_def expected_def assms(2))
next
  case (Cons e es)
  then have e: "wf_entry e" and es: "list_all wf_entry es" by simp_all
  have "listing_lines (e # es) @ rest = entry_lines e @ [] # (listing_lines es @ rest)"
    by (simp add: listing_lines_def)
  then show ?case
    using scan_entry [OF e, of P pp bn "listing_lines es @ rest" cp] Cons.IH [OF es]
    by (simp add: expected_def)
qed

lemma scan_blank_end: "scan_lines P pp bn [[]] cp None = None"
  by (simp add: loop_line_blank_unset last_entry_def)

lemma scan_end: "scan_lines P pp bn [] cp None = None"
  by (simp add: last_entry_def)

text \<open>A last entry that the end of the input ends.\<close>

lemma scan_open_entry:
  assumes "wf_entry e"
  shows "scan_lines P pp bn (entry_lines e) cp None =
     (if wt_branch e = Some bn then Some (resolvedPath P pp (wt_path e)) else None)"
proof -
  from assms have attrs: "list_all attribute_line (wt_head e)" "list_all attribute_line (wt_tail e)"
    and path: "wt_path e \<noteq> []"
    by (simp_all add: wf_entry_def)
  have tail: "scan_lines P pp bn (wt_tail e) c b = last_entry P pp bn c b" for c b
    using scan_attributes [OF attrs(2), of P pp bn "[]" c b] by simp
  show ?thesis
  proof (cases "wt_branch e")
    case None
    then show ?thesis
      by (simp add: entry_lines_def loop_line_worktree [simplified] scan_attributes [OF attrs(1)]
          tail last_entry_def)
  next
    case (Some b)
    with assms have b: "b \<noteq> []" by (simp add: wf_entry_def)
    from Some path b show ?thesis
      by (auto simp: entry_lines_def loop_line_worktree [simplified] scan_attributes [OF attrs(1)]
          tail loop_line_branch [simplified] last_entry_def)
  qed
qed

lemma find_append:
  "find Q (xs @ ys) = (case find Q xs of None \<Rightarrow> find Q ys | Some x \<Rightarrow> Some x)"
  by (induction xs) simp_all

lemma expected_snoc:
  "expected P pp bn (es @ [e]) =
     (case expected P pp bn es of
        None \<Rightarrow> if wt_branch e = Some bn then Some (resolvedPath P pp (wt_path e)) else None
      | Some p \<Rightarrow> Some p)"
  by (simp add: expected_def find_append split: option.splits)

lemma listing_lines_snoc: "listing_lines (es @ [e]) = listing_lines es @ entry_lines e @ [[]]"
  by (simp add: listing_lines_def)

lemma scan_cut_listing:
  assumes "list_all wf_entry es"
  shows "scan_lines P pp bn (butlast (listing_lines es)) None None = expected P pp bn es"
proof (cases es rule: rev_cases)
  case Nil
  then show ?thesis by (simp add: listing_lines_def expected_def last_entry_def)
next
  case (snoc es' e)
  with assms have es': "list_all wf_entry es'" and e: "wf_entry e" by simp_all
  have "butlast (listing_lines es) = listing_lines es' @ entry_lines e"
    by (simp add: snoc listing_lines_snoc butlast_append)
  then show ?thesis
    using scan_listing [OF es', of P pp bn "entry_lines e", OF scan_open_entry [OF e]]
    by (simp add: snoc expected_snoc split: option.splits)
qed

lemma newline_free_entry:
  assumes "wf_entry e"
  shows "\<forall>l \<in> set (entry_lines e). newline \<notin> set l"
proof -
  from assms have "\<forall>l \<in> set (wt_head e @ wt_tail e). newline \<notin> set l"
    by (auto simp: wf_entry_def list_all_iff attribute_line_def)
  moreover from assms have "newline \<notin> set (wt_path e)"
    by (simp add: wf_entry_def)
  moreover from assms have "\<And>b. wt_branch e = Some b \<Longrightarrow> newline \<notin> set b"
    by (auto simp: wf_entry_def)
  ultimately show ?thesis
    by (auto simp: entry_lines_def newline_def split: option.splits)
qed

lemma newline_free_listing:
  assumes "list_all wf_entry es"
  shows "\<forall>l \<in> set (listing_lines es). newline \<notin> set l"
  using assms
proof (induction es)
  case Nil
  show ?case by (simp add: listing_lines_def)
next
  case (Cons e es)
  from Cons.prems have "wf_entry e" by simp
  then have "\<forall>l \<in> set (entry_lines e). newline \<notin> set l"
    by (rule newline_free_entry)
  moreover from Cons have "\<forall>l \<in> set (listing_lines es). newline \<notin> set l"
    by simp
  moreover have "listing_lines (e # es) = entry_lines e @ [] # listing_lines es"
    by (simp add: listing_lines_def)
  ultimately show ?case by auto
qed

lemma startsWith_Cons:
  "startsWith l (c # p) \<longleftrightarrow> (\<exists>l'. l = c # l' \<and> startsWith l' p)"
  by (cases l) (auto simp: startsWith_def)

lemma worktree_line_no_branch: "startsWith l ''worktree '' \<Longrightarrow> \<not> startsWith l ''branch ''"
  by (auto simp: startsWith_Cons)

lemma scan_recorded:
  "scan_lines P pp bn ls cp cb = Some r \<Longrightarrow> cb = Some bn \<or> bn \<in> set (recorded_branches ls)"
proof (induction ls arbitrary: cp cb)
  case Nil
  then show ?case by (simp add: last_entry_def split: if_splits)
next
  case (Cons l ls)
  show ?case
  proof (cases "loop_line P pp bn l cp cb")
    case (Found p)
    then show ?thesis
      by (auto simp: loop_line_def split: if_splits)
  next
    case (Go cp' cb')
    with Cons.prems have "scan_lines P pp bn ls cp' cb' = Some r" by simp
    from Cons.IH [OF this] have "cb' = Some bn \<or> bn \<in> set (recorded_branches ls)" .
    then show ?thesis
    proof
      assume "bn \<in> set (recorded_branches ls)"
      then show ?thesis by (simp add: recorded_branches_def)
    next
      assume "cb' = Some bn"
      with Go show ?thesis
        by (auto simp: loop_line_def recorded_branches_def worktree_line_no_branch
            split: if_splits)
    qed
  qed
qed


lemma scan_text:
  assumes "list_all wf_entry es"
    and "ls = listing_lines es @ [[]] \<or> ls = listing_lines es \<or> ls = butlast (listing_lines es)"
  shows "scan_lines P pp bn (split_on newline (join_lines ls)) None None = expected P pp bn es"
proof -
  have free: "\<forall>l \<in> set (listing_lines es). newline \<notin> set l"
    using assms(1) by (rule newline_free_listing)
  have scan: "scan_lines P pp bn ls None None = expected P pp bn es"
  proof -
    have "scan_lines P pp bn (listing_lines es @ [[]]) None None = expected P pp bn es"
      using scan_listing [OF assms(1), of P pp bn "[[]]" None None, OF scan_blank_end]
      by (simp split: option.splits)
    moreover have "scan_lines P pp bn (listing_lines es) None None = expected P pp bn es"
      using scan_listing [OF assms(1), of P pp bn "[]" None None, OF scan_end]
      by (simp split: option.splits)
    moreover note scan_cut_listing [OF assms(1), of P pp bn]
    ultimately show ?thesis using assms(2) by blast
  qed
  show ?thesis
  proof (cases "ls = []")
    case True
    with scan have "expected P pp bn es = None"
      by (simp add: last_entry_def)
    with True show ?thesis
      by (simp add: loop_line_blank_unset last_entry_def)
  next
    case False
    from free have "\<forall>l \<in> set (butlast (listing_lines es)). newline \<notin> set l"
      by (meson in_set_butlastD)
    with free assms(2) have "\<forall>l \<in> set ls. newline \<notin> set l"
      by auto
    with False have "split_on newline (join_lines ls) = ls"
      by (rule split_on_join)
    with scan show ?thesis by simp
  qed
qed

text \<open>
  Claim C5. When the command prints a listing of well-formed entries, each ended by a
  blank line (the last one possibly by the end of the output), \<^verbatim>\<open>findWorktreeForBranch\<close>
  returns the resolution of the path of the first entry whose branch is the one asked
  for (the path alone when it is absolute, otherwise resolved against the project path)
  and \<^verbatim>\<open>null\<close> when no entry has the branch. On any output at all it returns \<^verbatim>\<open>null\<close>
  for a branch that no \<^verbatim>\<open>branch\<close> line of the output records.
\<close>

theorem findWorktreeForBranch_listing:
  assumes "list_all wf_entry es"
    and "ls = listing_lines es @ [[]] \<or> ls = listing_lines es \<or> ls = butlast (listing_lines es)"
    and "git projectPath = Some (join_lines ls)"
  shows "findWorktreeForBranch P git projectPath branchName =
           (case find (\<lambda>e. wt_branch e = Some branchName) es of
              None \<Rightarrow> None
            | Some e \<Rightarrow>
                Some (if isAbsolute P (wt_path e) then path_resolve P [wt_path e]
                      else path_resolve P [projectPath, wt_path e])) \<and>
         (branchName \<notin> set (recorded_branches (split_on newline out)) \<longrightarrow>
            findWorktreeForBranch P (\<lambda>cwd. Some out) projectPath branchName = None)"
proof -
  have "findWorktreeForBranch P git projectPath branchName =
      expected P projectPath branchName es"
    using scan_text [OF assms(1,2)] by (simp add: findWorktreeForBranch_def assms(3))
  moreover have "findWorktreeForBranch P (\<lambda>cwd. Some out) projectPath branchName = None"
    if "branchName \<notin> set (recorded_branches (split_on newline out))"
  proof (cases "findWorktreeForBranch P (\<lambda>cwd. Some out) projectPath branchName")
    case None
    then show ?thesis .
  next
    case (Some r)
    then have "scan_lines P projectPath branchName (split_on newline out) None None = Some r"
      by (simp add: findWorktreeForBranch_def)
    from scan_recorded [OF this] that show ?thesis by simp
  qed
  ultimately show ?thesis
    by (simp add: expected_def resolvedPath_def split: option.splits)
qed

theorem findWorktreeForBranch_listing_witness:
  "findWorktreeForBranch (posix ''/home'')
     (\<lambda>cwd. Some (''worktree /a/b'' @ [newline] @ ''branch refs/heads/feat-x'' @ [newline, newline]))
     ''/repo'' ''feat-x'' = Some ''/a/b'' \<and>
   findWorktreeForBranch (posix ''/home'')
     (\<lambda>cwd. Some (''worktree /a/b'' @ [newline] @ ''branch refs/heads/feat-x'' @ [newline, newline]))
     ''/repo'' ''feat-y'' = None \<and>
   findWorktreeForBranch (posix ''/home'')
     (\<lambda>cwd. Some (''worktree ../wt/x'' @ [newline] @ ''HEAD 0a1b'' @ [newline] @
                  ''branch refs/heads/feat-x''))
     ''/repo/main'' ''feat-x'' = Some ''/repo/wt/x''"
  using findWorktreeForBranch_listing
     [where es = "[\<lparr>wt_path = ''../wt/x'', wt_head = [''HEAD 0a1b''], wt_branch = Some ''feat-x'',
                    wt_tail = []\<rparr>]"
        and ls = "[''worktree ../wt/x'', ''HEAD 0a1b'', ''branch refs/heads/feat-x'']"
        and git = "\<lambda>cwd. Some (''worktree ../wt/x'' @ [newline] @ ''HEAD 0a1b'' @ [newline] @
                     ''branch refs/heads/feat-x'')"
        and projectPath = "''/repo/main''" and P = "posix ''/home''" and branchName = "''feat-x''"
        and out = "[]"]
    findWorktreeForBranch_listing
     [where es = "[\<lparr>wt_path = ''/a/b'', wt_head = [], wt_branch = Some ''feat-x'', wt_tail = []\<rparr>]"
        and ls = "[''worktree /a/b'', ''branch refs/heads/feat-x'', [], []]"
        and git = "\<lambda>cwd. Some (''worktree /a/b'' @ [newline] @ ''branch refs/heads/feat-x'' @
                     [newline, newline])"
        and projectPath = "''/repo''" and P = "posix ''/home''" and branchName = "''feat-x''"
        and out = "[]"]
    findWorktreeForBranch_listing
     [where es = "[\<lparr>wt_path = ''/a/b'', wt_head = [], wt_branch = Some ''feat-x'', wt_tail = []\<rparr>]"
        and ls = "[''worktree /a/b'', ''branch refs/heads/feat-x'', [], []]"
        and git = "\<lambda>cwd. Some (''worktree /a/b'' @ [newline] @ ''branch refs/heads/feat-x'' @
                     [newline, newline])"
        and projectPath = "''/repo''" and P = "posix ''/home''" and branchName = "''feat-y''"
        and out = "[]"]
  by (simp add: wf_entry_def listing_lines_def entry_lines_def attribute_line_def
      startsWith_def newline_def posix_def posix_resolve_def)

text \<open>
  Claim C7, amended. When worktrees are not used, or no branch name is given, or no
  worktree is found for the branch (as when the command fails), \<^verbatim>\<open>resolveWorkDir\<close>
  returns no worktree path and, as working directory, the resolution of the project
  path by \<^verbatim>\<open>path.resolve\<close>: the project path itself when resolving leaves it unchanged.
\<close>

theorem resolveWorkDir_fallback:
  "(\<not> useWorktrees \<or> \<not> truthy branchName \<longrightarrow>
      resolveWorkDir P git projectPath branchName useWorktrees =
        \<lparr>workDir = path_resolve P [projectPath], worktreePath = None\<rparr>) \<and>
   (findWorktreeForBranch P git projectPath b = None \<longrightarrow>
      resolveWorkDir P git projectPath (Some b) useWorktrees =
        \<lparr>workDir = path_resolve P [projectPath], worktreePath = None\<rparr>) \<and>
   (git projectPath = None \<longrightarrow> findWorktreeForBranch P git projectPath b = None) \<and>
   (path_resolve P [projectPath] = projectPath \<longrightarrow>
      workDir (resolveWorkDir P git projectPath None useWorktrees) = projectPath \<and>
      workDir (resolveWorkDir P git projectPath branchName False) = projectPath)"
  by (cases branchName) (auto simp: resolveWorkDir_def findWorktreeForBranch_def Let_def)

theorem resolveWorkDir_fallback_witness:
  "resolveWorkDir (posix ''/home'') (\<lambda>cwd. None) ''/repo'' (Some ''feat-x'') True =
     \<lparr>workDir = ''/repo'', worktreePath = None\<rparr> \<and>
   resolveWorkDir (posix ''/home'') (\<lambda>cwd. None) ''/repo'' None True =
     \<lparr>workDir = ''/repo'', worktreePath = None\<rparr>"
  using resolveWorkDir_fallback
     [where useWorktrees = True and branchName = "Some ''feat-x''" and P = "posix ''/home''"
        and git = "\<lambda>cwd. None" and projectPath = "''/repo''" and b = "''feat-x''"]
    resolveWorkDir_fallback
     [where useWorktrees = True and branchName = None and P = "posix ''/home''"
        and git = "\<lambda>cwd. None" and projectPath = "''/repo''" and b = "''feat-x''"]
  by (simp add: posix_def posix_resolve_def findWorktreeForBranch_def)

text \<open>
  Claim C7 as stated fails: the working directory is the resolved project path, which
  is another string when the project path is not in resolved form.
\<close>

theorem resolveWorkDir_projectPath_counterexample:
  "workDir (resolveWorkDir (posix ''/home'') (\<lambda>cwd. None) ''/a/b/'' None False) = ''/a/b'' \<and>
   workDir (resolveWorkDir (posix ''/home'') (\<lambda>cwd. None) ''/a/b/'' None False) \<noteq> ''/a/b/''"
  by (simp add: resolveWorkDir_def posix_def posix_resolve_def)

section \<open>Properties of the task parser\<close>



































lemma first_matchI: "rx_match r st = y # ys \<Longrightarrow> first_match r st y"
  by (simp add: first_match_def)











lemma length_minus_dropWhile:
  "take (length xs - length (dropWhile p xs)) xs = takeWhile p xs"
  by (metis add_diff_cancel_right' append_eq_conv_conj length_append takeWhile_dropWhile_id)


































end
